theory Spec2Isabelle
  imports Complex_Main "HOL-Library.Word"
begin

section \<open>The n-th prime by a bounded sieve (\<^verbatim>\<open>src/jpamb/timer.c\<close>)\<close>

text \<open>
  The C function under study:
  \<^verbatim>\<open>
  int sieve_of_eratosthenes(int n) {
      if (n <= 1) { return 2; }
      int limit = ceil(n * log(n) + n * log(log(n)));
      char *is_prime = (char*) calloc(limit + 1, sizeof(char));
      if (is_prime == NULL) {
          fprintf(stderr, "limit = %d\n", limit);
          fprintf(stderr, "Memory allocation failed.\n");
          exit(1);
      }
      int count = 1, i = 2;
      for (; i <= limit + 1; i++) {
          if (is_prime[i] == 0) {
              if (count++ == n) break;
              for (int j = i * 2; j <= limit; j += i) is_prime[j] = 1;
          }
      }
      free(is_prime);
      return i;
  }
  \<close>
\<close>

subsection \<open>C integers\<close>

text \<open>
  A C \<^verbatim>\<open>int\<close> is modelled as a mathematical integer together with the check that it
  fits 32 bits. Signed overflow and the conversion of an out-of-range \<^verbatim>\<open>double\<close> are
  undefined in C: the model stops there with a \<open>fault\<close> instead of inventing a value.
\<close>

definition INT_MAX :: int where
  "INT_MAX = 2147483647"

definition INT_MIN :: int where
  "INT_MIN = - 2147483648"

definition in_int :: "int \<Rightarrow> bool" where
  "in_int x \<longleftrightarrow> INT_MIN \<le> x \<and> x \<le> INT_MAX"

datatype fault = Signed_overflow | Conversion_out_of_range

text \<open>The conversion of an \<^verbatim>\<open>int\<close> argument to \<^verbatim>\<open>size_t\<close> (64 bits).\<close>

definition size_t_of :: "int \<Rightarrow> int" where
  "size_t_of x = x mod 2 ^ 64"

subsection \<open>The marking buffer\<close>

text \<open>
  \<^verbatim>\<open>is_prime\<close> points into memory. \<open>cells b k\<close> is the byte at \<^verbatim>\<open>is_prime + k\<close>, for
  every offset \<open>k\<close>: those with \<open>0 \<le> k < len b\<close> belong to the allocation, the others are
  whatever lies around it. An access outside the allocation is undefined in C; the model
  lets the run go on with the byte that the environment has there, and keeps every load and
  store made through the pointer in \<open>accesses b\<close>, the most recent first. That record does
  not influence the run: it is there to state where the function went.
\<close>

type_synonym byte = "8 word"

datatype access = Load int | Store int byte

record buffer =
  cells :: "int \<Rightarrow> byte"
  len :: int
  accesses :: "access list"

definition logged :: "access \<Rightarrow> buffer \<Rightarrow> buffer" where
  "logged a b = b\<lparr>accesses := a # accesses b\<rparr>"

definition store :: "buffer \<Rightarrow> int \<Rightarrow> byte \<Rightarrow> buffer" where
  "store b k v = logged (Store k v) (b\<lparr>cells := (cells b)(k := v)\<rparr>)"

fun index_of :: "access \<Rightarrow> int" where
  "index_of (Load k) = k"
| "index_of (Store k v) = k"

definition in_bounds :: "buffer \<Rightarrow> int \<Rightarrow> bool" where
  "in_bounds b k \<longleftrightarrow> 0 \<le> k \<and> k < len b"

definition out_of_bounds :: "buffer \<Rightarrow> int list" where
  "out_of_bounds b = filter (\<lambda>k. \<not> in_bounds b k) (map index_of (accesses b))"

text \<open>
  The environment of a call: whether \<^verbatim>\<open>calloc\<close> grants a request of a given size, and
  the bytes that lie outside the block it returns.
\<close>

record env =
  calloc_ok :: "int \<Rightarrow> bool"
  beyond :: "int \<Rightarrow> byte"

definition calloc :: "env \<Rightarrow> int \<Rightarrow> buffer option" where
  "calloc e sz =
     (if calloc_ok e sz
      then Some \<lparr>cells = (\<lambda>k. if 0 \<le> k \<and> k < sz then 0 else beyond e k),
                 len = sz, accesses = []\<rparr>
      else None)"

subsection \<open>The two loops\<close>

text \<open>
  The inner loop \<^verbatim>\<open>for (j = i * 2; j <= limit; j += i) is_prime[j] = 1;\<close> from its
  current \<open>j\<close>. Nothing in the loop itself makes \<open>j\<close> grow (that needs \<open>0 < i\<close>), so it
  is a partial function: \<open>None\<close> is a loop that never ends.
\<close>

partial_function (option) mark :: "int \<Rightarrow> int \<Rightarrow> int \<Rightarrow> buffer \<Rightarrow> (fault + buffer) option" where
  "mark limit i j b =
     (if j \<le> limit then
        (if in_int (j + i) then mark limit i (j + i) (store b j 1)
         else Some (Inl Signed_overflow))
      else Some (Inr b))"

text \<open>
  The outer loop from its current \<open>i\<close> and \<open>count\<close>; it yields the final \<open>i\<close>,
  \<open>count\<close> and buffer. \<^verbatim>\<open>count++ == n\<close> compares the old value and increments in
  either case.
\<close>

function scan :: "int \<Rightarrow> int \<Rightarrow> int \<Rightarrow> int \<Rightarrow> buffer \<Rightarrow> (fault + int \<times> int \<times> buffer) option" where
  "scan n limit i count b =
     (if i \<le> limit + 1 then
        (if cells b i = 0 then
           (if \<not> in_int (count + 1) then Some (Inl Signed_overflow)
            else if count = n then Some (Inr (i, count + 1, logged (Load i) b))
            else if \<not> in_int (i * 2) then Some (Inl Signed_overflow)
            else (case mark limit i (i * 2) (logged (Load i) b) of
                    None \<Rightarrow> None
                  | Some (Inl f) \<Rightarrow> Some (Inl f)
                  | Some (Inr b') \<Rightarrow>
                      if in_int (i + 1) then scan n limit (i + 1) (count + 1) b'
                      else Some (Inl Signed_overflow)))
         else if in_int (i + 1) then scan n limit (i + 1) count (logged (Load i) b)
         else Some (Inl Signed_overflow))
      else Some (Inr (i, count, b)))"
  by pat_completeness auto
termination
  by (relation "measure (\<lambda>(n, limit, i, count, b). nat (limit + 2 - i))") auto

declare scan.simps [simp del]

subsection \<open>The function\<close>

text \<open>
  \<^verbatim>\<open>ceil(n * log(n) + n * log(log(n)))\<close>, computed in the reals: the rounding of the
  \<^verbatim>\<open>double\<close> operations is not modelled. Where the exact value lies within the rounding
  error of an integer, the limit of the C code can differ from this one by 1; for \<open>n\<close> up to
  20000 the two agree.
\<close>

definition limit_of :: "int \<Rightarrow> int" where
  "limit_of n = \<lceil>real_of_int n * ln (real_of_int n) + real_of_int n * ln (ln (real_of_int n))\<rceil>"

datatype outcome = Returned int | Exit int | Undefined fault

datatype stderr_line = Limit_is int | Memory_allocation_failed

text \<open>
  What a call leaves behind: its outcome, the lines written to \<^verbatim>\<open>stderr\<close>, the size
  passed to \<^verbatim>\<open>calloc\<close> (if it was called), and the final \<open>i\<close>, \<open>count\<close> and buffer of
  the scan at \<^verbatim>\<open>free\<close> (if the scan ran).
\<close>

record run =
  outcome :: outcome
  stderr :: "stderr_line list"
  requested :: "int option"
  final :: "(int \<times> int \<times> buffer) option"

definition sieve_of_eratosthenes :: "env \<Rightarrow> int \<Rightarrow> run option" where
  "sieve_of_eratosthenes e n =
     (if n \<le> 1 then Some \<lparr>outcome = Returned 2, stderr = [], requested = None, final = None\<rparr>
      else if \<not> in_int (limit_of n) then
        Some \<lparr>outcome = Undefined Conversion_out_of_range, stderr = [], requested = None,
              final = None\<rparr>
      else if \<not> in_int (limit_of n + 1) then
        Some \<lparr>outcome = Undefined Signed_overflow, stderr = [], requested = None, final = None\<rparr>
      else
        (case calloc e (size_t_of (limit_of n + 1)) of
           None \<Rightarrow>
             Some \<lparr>outcome = Exit 1,
                   stderr = [Limit_is (limit_of n), Memory_allocation_failed],
                   requested = Some (size_t_of (limit_of n + 1)), final = None\<rparr>
         | Some b \<Rightarrow>
             (case scan n (limit_of n) 2 1 b of
                None \<Rightarrow> None
              | Some (Inl f) \<Rightarrow>
                  Some \<lparr>outcome = Undefined f, stderr = [],
                        requested = Some (size_t_of (limit_of n + 1)), final = None\<rparr>
              | Some (Inr (i, count, b')) \<Rightarrow>
                  Some \<lparr>outcome = Returned i, stderr = [],
                        requested = Some (size_t_of (limit_of n + 1)),
                        final = Some (i, count, b')\<rparr>)))"

subsection \<open>Reading a run\<close>

text \<open>The value returned, the scan variables at the end, and the indices the scan used outside its buffer.\<close>

definition returned :: "run \<Rightarrow> int option" where
  "returned r = (case outcome r of Returned v \<Rightarrow> Some v | Exit c \<Rightarrow> None | Undefined f \<Rightarrow> None)"

definition scan_end :: "run \<Rightarrow> (int \<times> int) option" where
  "scan_end r = (case final r of None \<Rightarrow> None | Some (i, count, b) \<Rightarrow> Some (i, count))"

definition stray_accesses :: "run \<Rightarrow> int list" where
  "stray_accesses r = (case final r of None \<Rightarrow> [] | Some (i, count, b) \<Rightarrow> out_of_bounds b)"

text \<open>
  The contents of memory after a sequence of accesses (most recent first), starting from
  the contents \<open>c\<close>.
\<close>

fun replay :: "access list \<Rightarrow> (int \<Rightarrow> byte) \<Rightarrow> (int \<Rightarrow> byte)" where
  "replay [] c = c"
| "replay (Load k # as) c = replay as c"
| "replay (Store k v # as) c = (replay as c)(k := v)"

text \<open>Every store of a sequence of accesses writes 1.\<close>

fun stores_one :: "access list \<Rightarrow> bool" where
  "stores_one [] = True"
| "stores_one (Load k # as) = stores_one as"
| "stores_one (Store k v # as) = (v = 1 \<and> stores_one as)"

text \<open>The record is complete: replaying it from the first contents gives the current ones.\<close>

definition recorded :: "(int \<Rightarrow> byte) \<Rightarrow> buffer \<Rightarrow> bool" where
  "recorded c b \<longleftrightarrow> replay (accesses b) c = cells b \<and> stores_one (accesses b)"

text \<open>
  Where the function means to go: the scan loads from 2 up to \<open>limit + 1\<close>, the marking
  loop stores from 2 up to \<open>limit\<close>.
\<close>

fun in_range :: "int \<Rightarrow> access \<Rightarrow> bool" where
  "in_range limit (Load k) \<longleftrightarrow> 2 \<le> k \<and> k \<le> limit + 1"
| "in_range limit (Store k v) \<longleftrightarrow> 2 \<le> k \<and> k \<le> limit"

text \<open>
  Three environments: one where \<^verbatim>\<open>calloc\<close> fails, one where the bytes around the block
  are zero, one where they are not.
\<close>

definition no_memory :: env where
  "no_memory = \<lparr>calloc_ok = (\<lambda>sz. False), beyond = (\<lambda>k. 0)\<rparr>"

definition zeroed :: env where
  "zeroed = \<lparr>calloc_ok = (\<lambda>sz. True), beyond = (\<lambda>k. 0)\<rparr>"

definition dirty :: env where
  "dirty = \<lparr>calloc_ok = (\<lambda>sz. True), beyond = (\<lambda>k. 1)\<rparr>"

text \<open>A number with no divisor other than 1 and itself.\<close>

definition prime_int :: "int \<Rightarrow> bool" where
  "prime_int p \<longleftrightarrow> 2 \<le> p \<and> (\<forall>d \<in> {2..<p}. \<not> d dvd p)"

text \<open>The primes below \<open>p\<close>, in ascending order.\<close>

definition primes_below :: "int \<Rightarrow> int list" where
  "primes_below p = filter prime_int [2..p - 1]"

text \<open>
  The state of the buffer when the scan is at \<open>i\<close>: among the entries from \<open>i\<close> to
  \<open>limit\<close>, those marked are the numbers with a divisor from 2 up to \<open>i - 1\<close>.
\<close>

definition sieved :: "int \<Rightarrow> int \<Rightarrow> buffer \<Rightarrow> bool" where
  "sieved limit i b \<longleftrightarrow>
     (\<forall>k. i \<le> k \<and> k \<le> limit \<longrightarrow> (cells b k \<noteq> 0 \<longleftrightarrow> (\<exists>d \<in> {2..<i}. d dvd k)))"

section \<open>The bound \<open>limit\<close>\<close>

text \<open>
  Bounds on \<open>exp\<close> by powers of rationals give the values of \<open>limit\<close> for \<open>n = 2\<close> and
  \<open>n = 3\<close>, a lower bound for \<open>n = 6\<close>, and the growth of \<open>limit\<close> by at least 2 from one
  \<open>n\<close> to the next.
\<close>

lemma exp_lower: "0 \<le> x \<Longrightarrow> 0 < k \<Longrightarrow> (1 + x / real k) ^ k \<le> exp (x::real)"
  by (rule exp_ge_one_plus_x_over_n_power_n) simp_all

lemma exp_upper:
  assumes "x < real k" "0 < k"
  shows "exp (x::real) \<le> 1 / (1 - x / real k) ^ k"
proof -
  have pos: "0 < (1 - x / real k) ^ k"
    using assms by (intro zero_less_power) (simp add: field_simps)
  have "(1 - x / real k) ^ k \<le> exp (- x)"
    using assms by (intro exp_ge_one_minus_x_over_n_power_n) simp_all
  then have "(1 - x / real k) ^ k * exp x \<le> exp (- x) * exp x"
    by (intro mult_right_mono) simp_all
  then have "(1 - x / real k) ^ k * exp x \<le> 1"
    by (simp add: exp_minus)
  then show ?thesis
    using pos by (simp add: field_simps)
qed

lemma limit_arg:
  assumes "2 \<le> n"
  shows "real_of_int n * ln (real_of_int n) + real_of_int n * ln (ln (real_of_int n))
         = real_of_int n * ln (real_of_int n * ln (real_of_int n))"
proof -
  have "0 < ln (real_of_int n)" using assms by simp
  then show ?thesis using assms by (simp add: ln_mult algebra_simps)
qed

lemma ln_le_if: "0 < a \<Longrightarrow> a \<le> exp q \<Longrightarrow> ln (a::real) \<le> q"
  by (metis exp_gt_zero ln_exp ln_le_cancel_iff)

lemma ln_gt_if: "exp q < a \<Longrightarrow> q < ln (a::real)"
  by (metis exp_gt_zero exp_less_cancel_iff exp_ln less_trans)

lemma ln2_gt_half: "1 / 2 < ln (2::real)"
proof -
  have "exp (1 / 2) \<le> 1 / (1 - (1 / 2) / real 2) ^ 2"
    by (rule exp_upper) simp_all
  also have "\<dots> < (2::real)" by (simp add: power2_eq_square)
  finally have "exp (1 / 2) < exp (ln (2::real))" by simp
  then show ?thesis by (simp only: exp_less_cancel_iff)
qed

lemma ln2_le: "ln (2::real) \<le> 3 / 4"
proof -
  have "(2::real) \<le> (1 + (3 / 4) / real 8) ^ 8" by (simp add: power_divide)
  also have "\<dots> \<le> exp (3 / 4)" by (rule exp_lower) simp_all
  finally have "exp (ln (2::real)) \<le> exp (3 / 4)" by simp
  then show ?thesis by (simp only: exp_le_cancel_iff)
qed

lemma limit_of_2: "limit_of 2 = 1"
proof -
  let ?x = "2 * ln (2 * ln (2::real))"
  have a: "1 < 2 * ln (2::real)" using ln2_gt_half by simp
  then have lo: "0 < ?x" by simp
  have "2 * ln (2::real) \<le> 3 / 2" using ln2_le by simp
  also have "\<dots> \<le> exp (1 / 2)" using exp_ge_add_one_self [of "1 / 2 :: real"] by simp
  finally have "ln (2 * ln (2::real)) \<le> 1 / 2"
    using a by (intro ln_le_if) simp_all
  then have hi: "?x \<le> 1" by simp
  have "limit_of 2 = \<lceil>?x\<rceil>"
    using limit_arg [of 2] by (simp add: limit_of_def)
  also have "\<dots> = 1" using lo hi by (intro ceiling_unique) simp_all
  finally show ?thesis .
qed

lemma exp1_lt_3: "exp 1 < (3::real)"
proof -
  have "exp 1 \<le> 1 / (1 - 1 / real 6) ^ 6"
    by (rule exp_upper) simp_all
  also have "\<dots> < (3::real)" by (simp add: power_divide)
  finally show ?thesis .
qed

lemma ln3_gt_1: "1 < ln (3::real)"
  by (rule ln_gt_if) (rule exp1_lt_3)

lemma ln3_le: "ln (3::real) \<le> 23 / 20"
proof -
  have "(3::real) \<le> (1 + (23 / 20) / real 16) ^ 16" by (simp add: power_divide)
  also have "\<dots> \<le> exp (23 / 20)" by (rule exp_lower) simp_all
  finally show ?thesis by (intro ln_le_if) simp_all
qed

lemma limit_of_3: "limit_of 3 = 4"
proof -
  let ?x = "3 * ln (3 * ln (3::real))"
  have "exp 1 < 3 * ln (3::real)" using exp1_lt_3 ln3_gt_1 by linarith
  then have "1 < ln (3 * ln (3::real))" by (rule ln_gt_if)
  then have lo: "3 < ?x" by simp
  have pos: "0 < 3 * ln (3::real)" using ln3_gt_1 by simp
  have "3 * ln (3::real) \<le> 69 / 20" using ln3_le by simp
  also have "\<dots> \<le> (1 + (4 / 3) / real 16) ^ 16" by (simp add: power_divide)
  also have "\<dots> \<le> exp (4 / 3)" by (rule exp_lower) simp_all
  finally have "ln (3 * ln (3::real)) \<le> 4 / 3"
    using pos by (intro ln_le_if) simp_all
  then have hi: "?x \<le> 4" by simp
  have "limit_of 3 = \<lceil>?x\<rceil>"
    using limit_arg [of 3] by (simp add: limit_of_def)
  also have "\<dots> = 4" using lo hi by (intro ceiling_unique) simp_all
  finally show ?thesis .
qed

lemma limit_of_ge_1:
  assumes "2 \<le> n"
  shows "1 \<le> limit_of n"
proof -
  let ?r = "real_of_int n"
  have n2: "2 \<le> ?r" using assms by simp
  have "ln 2 \<le> ln ?r" using n2 by simp
  then have "1 / 2 < ln ?r" using ln2_gt_half by linarith
  then have "2 * (1 / 2) < ?r * ln ?r"
    using n2 by (intro mult_le_less_imp_less) simp_all
  then have "0 < ln (?r * ln ?r)" by simp
  then have "0 < ?r * ln (?r * ln ?r)" using n2 by simp
  then have "0 < \<lceil>?r * ln (?r * ln ?r)\<rceil>" by simp
  then show ?thesis using limit_arg [OF assms] by (simp add: limit_of_def)
qed

lemma limit_growth_real:
  fixes r :: real
  assumes "3 \<le> r"
  shows "r * ln (r * ln r) + 2 \<le> (r + 1) * ln ((r + 1) * ln (r + 1))"
proof -
  have lnr: "0 < ln r" using assms by simp
  have ln4: "1 \<le> ln (r + 1)"
  proof -
    have "exp 1 \<le> r + 1" using exp_le assms by linarith
    then show ?thesis using assms by (subst ln_ge_iff) simp_all
  qed
  have mono: "ln r \<le> ln (r + 1)" using assms by simp
  let ?A = "(r + 1) * ln (r + 1)" and ?B = "r * ln r"
  have A: "ln ?A = ln (r + 1) + ln (ln (r + 1))"
    using assms ln4 by (simp add: ln_mult)
  have B: "ln ?B = ln r + ln (ln r)"
    using assms lnr by (simp add: ln_mult)
  have "ln (ln r) \<le> ln (ln (r + 1))" using lnr mono by simp
  moreover have "1 / (r + 1) \<le> ln (r + 1) - ln r"
  proof -
    have "ln (r / (r + 1)) \<le> r / (r + 1) - 1"
      using assms by (intro ln_le_minus_one) simp
    also have "r / (r + 1) - 1 = - (1 / (r + 1))"
      using assms by (simp add: field_simps)
    finally show ?thesis using assms by (simp add: ln_div)
  qed
  ultimately have "1 / (r + 1) \<le> ln ?A - ln ?B" using A B by linarith
  then have "r * (1 / (r + 1)) \<le> r * (ln ?A - ln ?B)"
    using assms by (intro mult_left_mono) simp_all
  moreover have "3 / 4 \<le> r * (1 / (r + 1))" using assms by (simp add: field_simps)
  ultimately have second: "3 / 4 \<le> r * (ln ?A - ln ?B)" by linarith
  have "exp (5 / 4) \<le> 1 / (1 - (5 / 4) / real 8) ^ 8"
    by (rule exp_upper) simp_all
  also have "\<dots> \<le> (4::real)" by (simp add: power_divide)
  also have "4 \<le> ?A"
  proof -
    have "4 * 1 \<le> (r + 1) * ln (r + 1)"
      using assms ln4 by (intro mult_mono) simp_all
    then show ?thesis by simp
  qed
  finally have first: "5 / 4 \<le> ln ?A"
    using assms ln4 by (subst ln_ge_iff) simp_all
  have "(r + 1) * ln ?A - r * ln ?B = ln ?A + r * (ln ?A - ln ?B)"
    by (simp add: algebra_simps)
  with first second show ?thesis by linarith
qed

lemma limit_growth:
  assumes "2 \<le> n"
  shows "limit_of n + 2 \<le> limit_of (n + 1)"
proof (cases "n = 2")
  case True
  then show ?thesis by (simp add: limit_of_2 limit_of_3)
next
  case False
  with assms have n3: "3 \<le> n" by simp
  let ?r = "real_of_int n"
  have "limit_of n + 2 = \<lceil>?r * ln (?r * ln ?r) + 2\<rceil>"
    using limit_arg [OF assms] by (simp add: limit_of_def)
  also have "\<dots> \<le> \<lceil>(?r + 1) * ln ((?r + 1) * ln (?r + 1))\<rceil>"
    using n3 by (intro ceiling_mono limit_growth_real) simp
  also have "\<dots> = limit_of (n + 1)"
    using limit_arg [of "n + 1"] assms by (simp add: limit_of_def)
  finally show ?thesis .
qed

lemma ln6_ge: "3 / 2 \<le> ln (6::real)"
proof -
  have "exp (3 / 2) \<le> 1 / (1 - (3 / 2) / real 8) ^ 8"
    by (rule exp_upper) simp_all
  also have "\<dots> \<le> (6::real)" by (simp add: power_divide)
  finally show ?thesis by (subst ln_ge_iff) simp_all
qed

lemma limit_of_6_ge: "13 \<le> limit_of 6"
proof -
  have "exp 2 = exp 1 * exp (1::real)" by (simp flip: exp_add)
  also have "\<dots> < 3 * 3" using exp1_lt_3 by (intro mult_strict_mono) simp_all
  also have "\<dots> \<le> 6 * ln (6::real)" using ln6_ge by simp
  finally have "2 < ln (6 * ln (6::real))" by (rule ln_gt_if)
  then have "12 < 6 * ln (6 * ln (6::real))" by simp
  then have "12 < \<lceil>6 * ln (6 * ln (6::real))\<rceil>" by (simp add: less_ceiling_iff)
  then show ?thesis using limit_arg [of 6] by (simp add: limit_of_def)
qed


section \<open>The two loops, step by step\<close>

text \<open>
  The marking loop returns for every \<open>i > 0\<close>, and so does the scan. Both get an induction
  rule that follows a run, and the marking loop a closed form of the buffer it leaves.
\<close>

lemma mark_total:
  assumes "0 < i"
  shows "\<exists>r. mark limit i j b = Some r"
  using assms
proof (induction "nat (limit + 1 - j)" arbitrary: j b rule: less_induct)
  case less
  show ?case
  proof (cases "j \<le> limit \<and> in_int (j + i)")
    case True
    then have "nat (limit + 1 - (j + i)) < nat (limit + 1 - j)"
      using less.prems by simp
    from less.hyps [OF this less.prems] obtain r
      where "mark limit i (j + i) (store b j 1) = Some r" by blast
    then show ?thesis using True by (subst mark.simps) simp
  next
    case False
    then show ?thesis by (subst mark.simps) auto
  qed
qed

lemma scan_total:
  "0 < i \<Longrightarrow> \<exists>r. scan n limit i count b = Some r"
proof (induction n limit i count b rule: scan.induct)
  case (1 n limit i count b)
  obtain m where m: "mark limit i (i * 2) (logged (Load i) b) = Some m"
    using mark_total [OF "1.prems"] by blast
  show ?case
    using "1.IH" "1.prems" m
    by (subst scan.simps) (auto split: sum.splits)
qed

lemma mark_induct [consumes 1, case_names step]:
  assumes "0 < (i::int)"
    and "\<And>j b. (j \<le> limit \<Longrightarrow> P (j + i) (store b j 1)) \<Longrightarrow> P j b"
  shows "P (j::int) (b::buffer)"
proof -
  have "\<forall>b. P j b"
  proof (induction "nat (limit + 1 - j)" arbitrary: j rule: less_induct)
    case less
    show ?case
    proof
      fix b
      have "P (j + i) (store b j 1)" if "j \<le> limit"
      proof -
        have "nat (limit + 1 - (j + i)) < nat (limit + 1 - j)"
          using assms(1) that by simp
        then show ?thesis using less.hyps by blast
      qed
      then show "P j b" by (rule assms(2))
    qed
  qed
  then show ?thesis by blast
qed

lemma mark_Inr:
  "mark limit i j b = Some (Inr b') \<longleftrightarrow>
     (if j \<le> limit then in_int (j + i) \<and> mark limit i (j + i) (store b j 1) = Some (Inr b')
      else b' = b)"
  by (subst mark.simps) (auto split: if_splits)

lemma mark_len:
  assumes "0 < i"
  shows "mark limit i j b = Some (Inr b') \<Longrightarrow> len b' = len b"
  using assms
proof (induction j b rule: mark_induct [where limit = limit])
  case (step j b)
  then show ?case
    by (cases "j \<le> limit") (auto simp: mark_Inr [of limit i j] store_def logged_def)
qed

lemma multiple_from:
  assumes "0 < (i::int)"
  shows "j \<le> k \<and> i dvd (k - j) \<longleftrightarrow> k = j \<or> (j + i \<le> k \<and> i dvd (k - (j + i)))"
proof -
  have dv: "i dvd (k - (j + i)) \<longleftrightarrow> i dvd (k - j)"
  proof -
    have "k - j = (k - (j + i)) + i" by simp
    then show ?thesis by (metis dvd_add_triv_right_iff)
  qed
  have "j + i \<le> k" if "j < k" "i dvd (k - j)"
  proof -
    from that obtain q where q: "k - j = i * q" by (auto simp: dvd_def)
    with that(1) assms have "0 < i * q" by simp
    with assms have "0 < q" by (simp add: zero_less_mult_iff)
    then have "i * 1 \<le> i * q" using assms by (intro mult_left_mono) simp_all
    with q show ?thesis by simp
  qed
  with assms dv show ?thesis by auto
qed

lemma mark_cells:
  assumes "0 < i"
  shows "mark limit i j b = Some (Inr b') \<Longrightarrow>
   cells b' k = (if j \<le> k \<and> k \<le> limit \<and> i dvd (k - j) then 1 else cells b k)"
  using assms
proof (induction j b rule: mark_induct [where limit = limit])
  case (step j b)
  show ?case
  proof (cases "j \<le> limit")
    case False
    with step.prems show ?thesis by (auto simp: mark_Inr [of limit i j])
  next
    case True
    with step.prems have m: "mark limit i (j + i) (store b j 1) = Some (Inr b')"
      by (simp add: mark_Inr [of limit i j])
    have "cells b' k =
        (if j + i \<le> k \<and> k \<le> limit \<and> i dvd (k - (j + i)) then 1 else cells (store b j 1) k)"
      by (rule step.IH [OF True m])
    then show ?thesis
      using True multiple_from [OF assms, of j k] assms
      by (auto simp: store_def logged_def)
  qed
qed

lemma mark_cells_outside:
  assumes "0 < i" "mark limit i j b = Some (Inr b')" "k < j \<or> limit < k"
  shows "cells b' k = cells b k"
  using mark_cells [OF assms(1,2), of k] assms(3) by auto

lemma scan_Inr:
  "scan n limit i count b = Some (Inr res) \<longleftrightarrow>
     (if i \<le> limit + 1 then
        (if cells b i = 0 then
           in_int (count + 1) \<and>
           (if count = n then res = (i, count + 1, logged (Load i) b)
            else in_int (i * 2) \<and>
              (\<exists>b'. mark limit i (i * 2) (logged (Load i) b) = Some (Inr b') \<and> in_int (i + 1) \<and>
                 scan n limit (i + 1) (count + 1) b' = Some (Inr res)))
         else in_int (i + 1) \<and> scan n limit (i + 1) count (logged (Load i) b) = Some (Inr res))
      else res = (i, count, b))"
  by (subst scan.simps) (auto split: option.splits sum.splits)

lemma scan_induct [consumes 2, case_names stop break prime composite]:
  assumes "scan n limit i count b = Some (Inr res)" and "0 < i"
    and stop: "\<And>i count b. limit + 1 < i \<Longrightarrow> P i count b (i, count, b)"
    and break: "\<And>i b. 0 < i \<Longrightarrow> i \<le> limit + 1 \<Longrightarrow> cells b i = 0 \<Longrightarrow>
                  P i n b (i, n + 1, logged (Load i) b)"
    and prime: "\<And>i count b b' res. 0 < i \<Longrightarrow> i \<le> limit + 1 \<Longrightarrow> cells b i = 0 \<Longrightarrow>
                  count \<noteq> n \<Longrightarrow> in_int (i * 2) \<Longrightarrow>
                  mark limit i (i * 2) (logged (Load i) b) = Some (Inr b') \<Longrightarrow>
                  scan n limit (i + 1) (count + 1) b' = Some (Inr res) \<Longrightarrow>
                  P (i + 1) (count + 1) b' res \<Longrightarrow> P i count b res"
    and composite: "\<And>i count b res. 0 < i \<Longrightarrow> i \<le> limit + 1 \<Longrightarrow> cells b i \<noteq> 0 \<Longrightarrow>
                  scan n limit (i + 1) count (logged (Load i) b) = Some (Inr res) \<Longrightarrow>
                  P (i + 1) count (logged (Load i) b) res \<Longrightarrow> P i count b res"
  shows "P i count b res"
  using assms
proof (induction n limit i count b rule: scan.induct)
  case (1 n limit i count b)
  note run = "1.prems"(1) [THEN scan_Inr [THEN iffD1]] and pos = "1.prems"(2)
  note stop = "1.prems"(3) and break = "1.prems"(4)
    and prime = "1.prems"(5) and composite = "1.prems"(6)
  have pos': "0 < i + 1" using pos by simp
  show ?case
  proof (cases "i \<le> limit + 1")
    case False
    with run have "res = (i, count, b)" by simp
    with False show ?thesis using stop by simp
  next
    case le: True
    show ?thesis
    proof (cases "cells b i = 0")
      case False
      with le run have ok: "in_int (i + 1)"
        and next_run: "scan n limit (i + 1) count (logged (Load i) b) = Some (Inr res)"
        by simp_all
      from le False ok next_run pos' have "P (i + 1) count (logged (Load i) b) res"
        using stop break prime composite by (rule "1.IH"(2))
      with pos le False next_run show ?thesis by (rule composite)
    next
      case zero: True
      with le run have c_ok: "in_int (count + 1)" by simp
      show ?thesis
      proof (cases "count = n")
        case True
        with le zero c_ok run have "res = (i, n + 1, logged (Load i) b)" by simp
        with True show ?thesis using break [OF pos le zero] by simp
      next
        case False
        with le zero c_ok run have j_ok: "in_int (i * 2)" by simp
        from le zero c_ok False run obtain b'
          where m: "mark limit i (i * 2) (logged (Load i) b) = Some (Inr b')"
            and ok: "in_int (i + 1)"
            and next_run: "scan n limit (i + 1) (count + 1) b' = Some (Inr res)"
          by auto
        have nn: "\<not> \<not> in_int (count + 1)" "\<not> \<not> in_int (i * 2)"
          using c_ok j_ok by simp_all
        from le zero nn(1) False nn(2) m refl ok next_run pos'
        have "P (i + 1) (count + 1) b' res"
          using stop break prime composite by (rule "1.IH"(1))
        with pos le zero False j_ok m next_run show ?thesis by (rule prime)
      qed
    qed
  qed
qed

section \<open>Properties of the scan\<close>

subsection \<open>What the loops leave unchanged\<close>

lemma scan_len_aux:
  assumes "scan n limit i count b = Some (Inr res)" "0 < i"
  shows "len (snd (snd res)) = len b"
  using assms
proof (induction rule: scan_induct)
  case (prime i count b b1 res)
  then show ?case using mark_len [of i limit "i * 2" "logged (Load i) b" b1]
    by (simp add: logged_def)
qed (simp_all add: logged_def)

lemma scan_len:
  assumes "scan n limit i count b = Some (Inr (i', count', b'))" "0 < i"
  shows "len b' = len b"
  using scan_len_aux [OF assms] by simp

lemma scan_bounds_aux:
  assumes "scan n limit i count b = Some (Inr res)" "0 < i"
  shows "i \<le> limit + 2 \<longrightarrow> i \<le> fst res \<and> fst res \<le> limit + 2"
  using assms
  by (induction rule: scan_induct) auto

lemma scan_bounds:
  assumes "scan n limit i count b = Some (Inr (i', count', b'))" "0 < i" "i \<le> limit + 2"
  shows "i \<le> i' \<and> i' \<le> limit + 2"
  using scan_bounds_aux [OF assms(1,2)] assms(3) by simp

lemma scan_exhausted_aux:
  assumes "scan n limit i count b = Some (Inr res)" "0 < i"
  shows "count \<le> n \<longrightarrow> (fst (snd res) \<le> n \<longleftrightarrow> limit + 1 < fst res)"
  using assms
  by (induction rule: scan_induct) auto

lemma scan_exhausted:
  assumes "scan n limit i count b = Some (Inr (i', count', b'))" "0 < i" "count \<le> n"
  shows "count' \<le> n \<longleftrightarrow> limit + 1 < i'"
  using scan_exhausted_aux [OF assms(1,2)] assms(3) by simp

subsection \<open>Overflow: none below \<open>2 ^ 30\<close>\<close>



text \<open>
  Above that bound the scan can leave the \<^verbatim>\<open>int\<close> range: at an unmarked \<open>i\<close> of
  \<open>2 ^ 30\<close> or more that is not yet the n-th, \<^verbatim>\<open>i * 2\<close> overflows.
\<close>

lemma scan_overflows:
  assumes "i \<le> limit + 1" "cells b i = 0" "in_int (count + 1)" "count \<noteq> n" "\<not> in_int (i * 2)"
  shows "scan n limit i count b = Some (Inl Signed_overflow)"
  using assms by (subst scan.simps) simp

subsection \<open>The record of accesses\<close>

lemma replay_keeps_marks:
  "stores_one later \<Longrightarrow> replay earlier c k \<noteq> 0 \<Longrightarrow> replay (later @ earlier) c k \<noteq> 0"
proof (induction later)
  case Nil
  then show ?case by simp
next
  case (Cons a later)
  then show ?case by (cases a) auto
qed

lemma recorded_logged_Load: "recorded c b \<Longrightarrow> recorded c (logged (Load k) b)"
  by (simp add: recorded_def logged_def)

lemma recorded_store: "recorded c b \<Longrightarrow> recorded c (store b k 1)"
  by (auto simp: recorded_def logged_def store_def)

lemma mark_recorded:
  assumes "0 < i"
  shows "mark limit i j b = Some (Inr b') \<Longrightarrow> recorded c b \<Longrightarrow> recorded c b'"
  using assms
proof (induction j b rule: mark_induct [where limit = limit])
  case (step j b)
  then show ?case
    by (cases "j \<le> limit") (auto simp: mark_Inr [of limit i j] recorded_store)
qed

lemma scan_recorded_aux:
  assumes "scan n limit i count b = Some (Inr res)" "0 < i"
  shows "recorded c b \<longrightarrow> recorded c (snd (snd res))"
  using assms
proof (induction rule: scan_induct)
  case (prime i count b b' res)
  then show ?case
    using mark_recorded [of i limit "i * 2" "logged (Load i) b" b' c]
    by (simp add: recorded_logged_Load)
qed (simp_all add: recorded_logged_Load)

lemma scan_recorded:
  assumes "scan n limit i count b = Some (Inr (i', count', b'))" "0 < i" "recorded c b"
  shows "recorded c b'"
  using scan_recorded_aux [OF assms(1,2), of c] assms(3) by simp

lemma stores_one_append: "stores_one (xs @ ys) \<longleftrightarrow> stores_one xs \<and> stores_one ys"
proof (induction xs)
  case Nil
  then show ?case by simp
next
  case (Cons a xs)
  then show ?case by (cases a) simp_all
qed

lemma size_t_of_limit:
  assumes "2 \<le> n" "in_int (limit_of n + 1)"
  shows "size_t_of (limit_of n + 1) = limit_of n + 1"
  using limit_of_ge_1 [OF assms(1)] assms(2)
  by (simp add: size_t_of_def in_int_def INT_MAX_def)

lemma sieve_scanned:
  assumes "sieve_of_eratosthenes e n = Some r" "final r = Some (i, count, b)"
  shows "2 \<le> n \<and> in_int (limit_of n + 1) \<and> calloc_ok e (limit_of n + 1) \<and>
         (\<exists>b0. calloc e (limit_of n + 1) = Some b0 \<and>
               scan n (limit_of n) 2 1 b0 = Some (Inr (i, count, b))) \<and>
         r = \<lparr>outcome = Returned i, stderr = [], requested = Some (limit_of n + 1),
              final = Some (i, count, b)\<rparr>"
proof -
  have n2: "2 \<le> n" using assms by (auto simp: sieve_of_eratosthenes_def split: if_splits)
  have ok: "in_int (limit_of n + 1)"
    using assms by (auto simp: sieve_of_eratosthenes_def split: if_splits)
  note sz = size_t_of_limit [OF n2 ok]
  show ?thesis
    using assms n2 ok
    by (auto simp: sieve_of_eratosthenes_def sz calloc_def
        split: if_splits option.splits sum.splits)
qed

lemma sieve_returned:
  assumes "sieve_of_eratosthenes e n = Some r" "outcome r = Returned v" "2 \<le> n"
  shows "\<exists>count b. final r = Some (v, count, b)"
  using assms
  by (auto simp: sieve_of_eratosthenes_def split: if_splits option.splits sum.splits)

subsection \<open>Where the accesses go\<close>

lemma in_range_index: "in_range limit a \<Longrightarrow> 2 \<le> index_of a \<and> index_of a \<le> limit + 1"
  by (cases a) simp_all

lemma mark_in_range:
  assumes "0 < i"
  shows "mark limit i j b = Some (Inr b') \<Longrightarrow> 2 \<le> j \<Longrightarrow>
         \<forall>a \<in> set (accesses b). in_range limit a \<Longrightarrow> \<forall>a \<in> set (accesses b'). in_range limit a"
  using assms
proof (induction j b rule: mark_induct [where limit = limit])
  case (step j b)
  show ?case
  proof (cases "j \<le> limit")
    case True
    with step.prems(1) have m: "mark limit i (j + i) (store b j 1) = Some (Inr b')"
      by (simp add: mark_Inr [of limit i j])
    have "\<forall>a \<in> set (accesses (store b j 1)). in_range limit a"
      using step.prems True by (simp add: store_def logged_def)
    with step.IH [OF True m] step.prems(2) assms show ?thesis by simp
  next
    case False
    with step.prems show ?thesis by (simp add: mark_Inr [of limit i j])
  qed
qed

lemma scan_in_range:
  assumes "scan n limit i count b = Some (Inr res)" "0 < i"
  shows "2 \<le> i \<longrightarrow> (\<forall>a \<in> set (accesses b). in_range limit a) \<longrightarrow>
         (\<forall>a \<in> set (accesses (snd (snd res))). in_range limit a)"
  using assms
proof (induction rule: scan_induct)
  case (prime i count b b' res)
  show ?case
  proof (intro impI)
    assume h: "2 \<le> i" "\<forall>a \<in> set (accesses b). in_range limit a"
    then have "\<forall>a \<in> set (accesses (logged (Load i) b)). in_range limit a"
      using prime.hyps(2) by (simp add: logged_def)
    then have "\<forall>a \<in> set (accesses b'). in_range limit a"
      using mark_in_range [OF prime.hyps(1,6)] h(1) by simp
    with prime.IH h(1) show "\<forall>a \<in> set (accesses (snd (snd res))). in_range limit a" by simp
  qed
qed (simp_all add: logged_def)

lemma strays_at_limit_plus_1:
  assumes "sieve_of_eratosthenes e n = Some r"
  shows "set (stray_accesses r) \<subseteq> {limit_of n + 1}"
proof (cases "final r")
  case None
  then show ?thesis by (simp add: stray_accesses_def)
next
  case (Some f)
  obtain i count b where f: "f = (i, count, b)" by (cases f)
  from sieve_scanned [OF assms Some [unfolded f]] obtain b0
    where c: "calloc e (limit_of n + 1) = Some b0"
      and s: "scan n (limit_of n) 2 1 b0 = Some (Inr (i, count, b))"
    by blast
  have b0: "len b0 = limit_of n + 1" "accesses b0 = []"
    using c by (auto simp: calloc_def split: if_splits)
  have "\<forall>a \<in> set (accesses b). in_range (limit_of n) a"
    using scan_in_range [OF s] b0 by simp
  moreover have "len b = limit_of n + 1" using scan_len [OF s] b0 by simp
  ultimately have "k = limit_of n + 1" if "k \<in> set (out_of_bounds b)" for k
    using that in_range_index [of "limit_of n"]
    by (fastforce simp: out_of_bounds_def in_bounds_def)
  then show ?thesis using Some f by (auto simp: stray_accesses_def)
qed

section \<open>The sieve\<close>

text \<open>
  While the scan stays inside the buffer, an unmarked entry is a prime and \<open>count\<close> is one
  more than the number of primes passed. So a result of at most \<open>limit\<close> is the n-th prime,
  and the scan stops at the n-th prime when that is at most \<open>limit\<close>.
\<close>

subsection \<open>Primes\<close>

lemma primes_below_step:
  "2 \<le> i \<Longrightarrow> primes_below (i + 1) = primes_below i @ (if prime_int i then [i] else [])"
  by (simp add: primes_below_def upto_rec2)

lemma primes_below_mono: "a \<le> b \<Longrightarrow> length (primes_below a) \<le> length (primes_below b)"
proof (induction b rule: int_ge_induct)
  case base
  then show ?case by simp
next
  case (step b)
  show ?case
  proof (cases "2 \<le> b")
    case True
    with step show ?thesis by (simp add: primes_below_step)
  next
    case False
    with step.hyps show ?thesis by (simp add: primes_below_def)
  qed
qed

lemma primes_below_less:
  assumes "prime_int p" "p < q"
  shows "length (primes_below p) < length (primes_below q)"
proof -
  have "2 \<le> p" using assms(1) by (simp add: prime_int_def)
  then have "length (primes_below (p + 1)) = length (primes_below p) + 1"
    using assms(1) by (simp add: primes_below_step)
  moreover have "length (primes_below (p + 1)) \<le> length (primes_below q)"
    using assms(2) by (intro primes_below_mono) simp
  ultimately show ?thesis by simp
qed

lemma previous_prime:
  "length (primes_below p) = Suc m \<Longrightarrow>
   \<exists>q. prime_int q \<and> q < p \<and> length (primes_below q) = m"
proof (cases "2 \<le> p")
  case False
  assume "length (primes_below p) = Suc m"
  with False show ?thesis by (simp add: primes_below_def)
next
  case True
  assume "length (primes_below p) = Suc m"
  with True show ?thesis
  proof (induction p rule: int_ge_induct)
    case base
    then show ?case by (simp add: primes_below_def)
  next
    case (step p)
    show ?case
    proof (cases "prime_int p")
      case True
      with step.prems step.hyps have "length (primes_below p) = m"
        by (simp add: primes_below_step)
      with True show ?thesis by (intro exI [of _ p]) simp
    next
      case False
      with step.prems step.hyps have "length (primes_below p) = Suc m"
        by (simp add: primes_below_step)
      then obtain q where "prime_int q" "q < p" "length (primes_below q) = m"
        using step.IH by blast
      then show ?thesis by (intro exI [of _ q]) simp
    qed
  qed
qed

lemma twin_2_3:
  assumes "prime_int q" "prime_int (q + 1)"
  shows "q = 2"
proof (rule ccontr)
  assume "q \<noteq> 2"
  with assms(1) have q3: "3 \<le> q" by (simp add: prime_int_def)
  show False
  proof (cases "even q")
    case True
    with q3 have "2 \<in> {2..<q}" "2 dvd q" by simp_all
    with assms(1) show False unfolding prime_int_def by blast
  next
    case False
    with q3 have "2 \<in> {2..<q + 1}" "2 dvd (q + 1)" by simp_all
    with assms(2) show False unfolding prime_int_def by blast
  qed
qed

subsection \<open>The sieve invariant\<close>

lemma candidates_step: "2 \<le> i \<Longrightarrow> {2..<i + 1} = insert i {2..<i::int}"
  by auto

lemma sieved_prime:
  assumes "sieved limit i b" "2 \<le> i" "i \<le> limit"
  shows "cells b i = 0 \<longleftrightarrow> prime_int i"
  using assms unfolding sieved_def prime_int_def by auto

lemma sieved_logged: "sieved limit i (logged a b) = sieved limit i b"
  by (simp add: sieved_def logged_def)

lemma sieved_skip:
  assumes "sieved limit i b" "2 \<le> i" "cells b i \<noteq> 0"
  shows "sieved limit (i + 1) b"
  unfolding sieved_def
proof (intro allI impI)
  fix k assume k: "i + 1 \<le> k \<and> k \<le> limit"
  then have old: "cells b k \<noteq> 0 \<longleftrightarrow> (\<exists>d \<in> {2..<i}. d dvd k)"
    using assms(1) by (simp add: sieved_def)
  have "\<exists>d \<in> {2..<i}. d dvd k" if "i dvd k"
  proof -
    have "i \<le> limit" using k by simp
    then obtain d where "d \<in> {2..<i}" "d dvd i"
      using assms by (auto simp: sieved_def)
    with that show ?thesis by (meson dvd_trans)
  qed
  then have "(\<exists>d \<in> {2..<i + 1}. d dvd k) \<longleftrightarrow> (\<exists>d \<in> {2..<i}. d dvd k)"
    using assms(2) by (auto simp: candidates_step)
  with old show "cells b k \<noteq> 0 \<longleftrightarrow> (\<exists>d \<in> {2..<i + 1}. d dvd k)" by simp
qed

lemma sieved_mark:
  assumes "sieved limit i b" "2 \<le> i" "mark limit i (i * 2) b = Some (Inr b')"
  shows "sieved limit (i + 1) b'"
  unfolding sieved_def
proof (intro allI impI)
  fix k assume k: "i + 1 \<le> k \<and> k \<le> limit"
  have pos: "0 < i" using assms(2) by simp
  have new: "cells b' k = (if i * 2 \<le> k \<and> k \<le> limit \<and> i dvd (k - i * 2) then 1 else cells b k)"
    by (rule mark_cells [OF pos assms(3)])
  have old: "cells b k \<noteq> 0 \<longleftrightarrow> (\<exists>d \<in> {2..<i}. d dvd k)"
    using assms(1) k by (simp add: sieved_def)
  have dv: "i dvd (k - i * 2) \<longleftrightarrow> i dvd k" by (simp add: dvd_diff_left_iff)
  have "i * 2 \<le> k" if "i dvd k"
  proof -
    from that obtain m where m: "k = i * m" by (auto simp: dvd_def)
    have "1 < m"
    proof (rule ccontr)
      assume "\<not> 1 < m"
      then have "i * m \<le> i * 1" using pos by (intro mult_left_mono) simp_all
      with m k show False by simp
    qed
    then have "i * 2 \<le> i * m" using pos by (intro mult_left_mono) simp_all
    with m show ?thesis by simp
  qed
  with k have "i * 2 \<le> k \<and> k \<le> limit \<and> i dvd (k - i * 2) \<longleftrightarrow> i dvd k"
    using dv by auto
  moreover have "(\<exists>d \<in> {2..<i + 1}. d dvd k) \<longleftrightarrow> i dvd k \<or> (\<exists>d \<in> {2..<i}. d dvd k)"
    using assms(2) by (simp add: candidates_step)
  ultimately show "cells b' k \<noteq> 0 \<longleftrightarrow> (\<exists>d \<in> {2..<i + 1}. d dvd k)"
    using new old by simp
qed

subsection \<open>What the scan finds\<close>

lemma scan_finds:
  assumes "scan n limit i count b = Some (Inr res)" "0 < i"
  shows "2 \<le> i \<longrightarrow> sieved limit i b \<longrightarrow> (i \<le> limit \<longrightarrow> count = 1 + int (length (primes_below i))) \<longrightarrow>
         (fst res \<le> limit \<longrightarrow>
            prime_int (fst res) \<and> 1 + int (length (primes_below (fst res))) = n) \<and>
         (\<forall>q. prime_int q \<and> i \<le> q \<and> q \<le> limit \<and> 1 + int (length (primes_below q)) = n \<longrightarrow>
            fst res = q)"
  using assms
proof (induction rule: scan_induct)
  case (stop i count b)
  then show ?case by auto
next
  case (break i b)
  show ?case
  proof (intro impI conjI allI)
    assume inv: "2 \<le> i" "sieved limit i b" "i \<le> limit \<longrightarrow> n = 1 + int (length (primes_below i))"
    {
      assume "fst (i, n + 1, logged (Load i) b) \<le> limit"
      then have le: "i \<le> limit" by simp
      with inv break show "prime_int (fst (i, n + 1, logged (Load i) b))"
        by (simp add: sieved_prime)
      from le inv show "1 + int (length (primes_below (fst (i, n + 1, logged (Load i) b)))) = n"
        by simp
    }
    fix q
    assume q: "prime_int q \<and> i \<le> q \<and> q \<le> limit \<and> 1 + int (length (primes_below q)) = n"
    have "\<not> i < q"
    proof
      assume "i < q"
      with q have le: "i \<le> limit" by simp
      with inv break have "prime_int i" by (simp add: sieved_prime)
      then have "length (primes_below i) < length (primes_below q)"
        using \<open>i < q\<close> by (rule primes_below_less)
      with q le inv show False by simp
    qed
    with q show "fst (i, n + 1, logged (Load i) b) = q" by simp
  qed
next
  case (prime i count b b' res)
  show ?case
  proof (intro impI)
    assume inv: "2 \<le> i" "sieved limit i b" "i \<le> limit \<longrightarrow> count = 1 + int (length (primes_below i))"
    have p: "prime_int i" if "i \<le> limit"
      using inv prime.hyps(3) that by (simp add: sieved_prime)
    have "sieved limit i (logged (Load i) b)" using inv by (simp add: sieved_logged)
    then have s': "sieved limit (i + 1) b'"
      using inv(1) prime.hyps(6) by (rule sieved_mark)
    have c': "i + 1 \<le> limit \<longrightarrow> count + 1 = 1 + int (length (primes_below (i + 1)))"
      using inv p by (simp add: primes_below_step)
    from prime.IH inv(1) s' c'
    have IH: "(fst res \<le> limit \<longrightarrow>
            prime_int (fst res) \<and> 1 + int (length (primes_below (fst res))) = n) \<and>
         (\<forall>q. prime_int q \<and> i + 1 \<le> q \<and> q \<le> limit \<and> 1 + int (length (primes_below q)) = n \<longrightarrow>
            fst res = q)"
      by simp
    have "q \<noteq> i" if "q \<le> limit" "1 + int (length (primes_below q)) = n" for q
      using that inv(3) prime.hyps(4) by auto
    then have "i + 1 \<le> q"
      if "i \<le> q" "q \<le> limit" "1 + int (length (primes_below q)) = n" for q
      using that by force
    with IH show "(fst res \<le> limit \<longrightarrow>
            prime_int (fst res) \<and> 1 + int (length (primes_below (fst res))) = n) \<and>
         (\<forall>q. prime_int q \<and> i \<le> q \<and> q \<le> limit \<and> 1 + int (length (primes_below q)) = n \<longrightarrow>
            fst res = q)"
      by blast
  qed
next
  case (composite i count b res)
  show ?case
  proof (intro impI)
    assume inv: "2 \<le> i" "sieved limit i b" "i \<le> limit \<longrightarrow> count = 1 + int (length (primes_below i))"
    have np: "\<not> prime_int i" if "i \<le> limit"
      using inv composite.hyps(3) that by (simp add: sieved_prime)
    have s': "sieved limit (i + 1) (logged (Load i) b)"
      using sieved_skip [OF inv(2,1) composite.hyps(3)] by (simp add: sieved_logged)
    have c': "i + 1 \<le> limit \<longrightarrow> count = 1 + int (length (primes_below (i + 1)))"
      using inv np by (simp add: primes_below_step)
    from composite.IH inv(1) s' c'
    have IH: "(fst res \<le> limit \<longrightarrow>
            prime_int (fst res) \<and> 1 + int (length (primes_below (fst res))) = n) \<and>
         (\<forall>q. prime_int q \<and> i + 1 \<le> q \<and> q \<le> limit \<and> 1 + int (length (primes_below q)) = n \<longrightarrow>
            fst res = q)"
      by simp
    have "i + 1 \<le> q" if "prime_int q" "i \<le> q" "q \<le> limit" for q
      using that np [of] by (cases "q = i") auto
    with IH show "(fst res \<le> limit \<longrightarrow>
            prime_int (fst res) \<and> 1 + int (length (primes_below (fst res))) = n) \<and>
         (\<forall>q. prime_int q \<and> i \<le> q \<and> q \<le> limit \<and> 1 + int (length (primes_below q)) = n \<longrightarrow>
            fst res = q)"
      by blast
  qed
qed

lemma sieve_finds:
  assumes "sieve_of_eratosthenes e n = Some r" "final r = Some (v, count, b)"
  shows "(v \<le> limit_of n \<longrightarrow> prime_int v \<and> 1 + int (length (primes_below v)) = n) \<and>
         (\<forall>q. prime_int q \<and> q \<le> limit_of n \<and> 1 + int (length (primes_below q)) = n \<longrightarrow> v = q)"
proof -
  from sieve_scanned [OF assms] obtain b0
    where c: "calloc e (limit_of n + 1) = Some b0"
      and s: "scan n (limit_of n) 2 1 b0 = Some (Inr (v, count, b))"
    by blast
  have "sieved (limit_of n) 2 b0"
    using c by (auto simp: sieved_def calloc_def split: if_splits)
  moreover have "(1::int) = 1 + int (length (primes_below 2))"
    by (simp add: primes_below_def)
  moreover have "2 \<le> q" if "prime_int q" for q using that by (simp add: prime_int_def)
  ultimately show ?thesis
    using scan_finds [OF s] by auto
qed

lemma sieve_bounds:
  assumes "sieve_of_eratosthenes e n = Some r" "final r = Some (v, count, b)"
  shows "2 \<le> v \<and> v \<le> limit_of n + 2"
proof -
  from sieve_scanned [OF assms] obtain b0
    where n2: "2 \<le> n" and s: "scan n (limit_of n) 2 1 b0 = Some (Inr (v, count, b))"
    by blast
  show ?thesis
    using scan_bounds [OF s] limit_of_ge_1 [OF n2] by simp
qed

lemma scan_moves_on:
  assumes "scan n limit i count b = Some (Inr (i', count', b'))" "0 < i" "count \<noteq> n"
    "i \<le> limit + 1"
  shows "i < i'"
proof -
  have "\<exists>c b1. scan n limit (i + 1) c b1 = Some (Inr (i', count', b'))"
    using assms(1) [THEN scan_Inr [THEN iffD1]] assms(3,4)
    by (auto split: if_splits)
  then obtain c b1 where "scan n limit (i + 1) c b1 = Some (Inr (i', count', b'))" by blast
  then have "i + 1 \<le> i'"
    using scan_bounds [of n limit "i + 1" c b1 i' count' b'] assms(2,4) by simp
  then show ?thesis by simp
qed

section \<open>Some runs, evaluated\<close>

text \<open>
  The calls for \<open>n = 2\<close> and \<open>n = 3\<close>, where \<open>limit\<close> is 1 and 4: the buffers have 2 and 5
  bytes and the scans go up to the indices 2 and 5.
\<close>

lemmas run_simps = sieve_of_eratosthenes_def calloc_def size_t_of_def in_int_def INT_MAX_def
  INT_MIN_def scan.simps mark.simps logged_def store_def

lemma env_simps:
  "calloc_ok zeroed sz" "beyond zeroed k = 0"
  "calloc_ok dirty sz" "beyond dirty k = 1"
  "\<not> calloc_ok no_memory sz" "beyond no_memory k = 0"
  by (simp_all add: zeroed_def dirty_def no_memory_def)

lemma run_zeroed_2:
  "sieve_of_eratosthenes zeroed 2 =
     Some \<lparr>outcome = Returned 3, stderr = [], requested = Some 2,
           final = Some (3, 2, \<lparr>cells = (\<lambda>k. if 0 \<le> k \<and> k < 2 then 0 else beyond zeroed k),
                                len = 2, accesses = [Load 2]\<rparr>)\<rparr>"
  by (simp add: run_simps limit_of_2 env_simps)

lemma run_zeroed_3:
  "sieve_of_eratosthenes zeroed 3 =
     Some \<lparr>outcome = Returned 5, stderr = [], requested = Some 5,
           final = Some (5, 4, \<lparr>cells = (\<lambda>k. if 0 \<le> k \<and> k < 5 then 0 else beyond zeroed k)(4 := 1),
                                len = 5,
                                accesses = [Load 5, Load 4, Load 3, Store 4 1, Load 2]\<rparr>)\<rparr>"
  by (simp add: run_simps limit_of_3 env_simps)

lemma run_dirty_3:
  "sieve_of_eratosthenes dirty 3 =
     Some \<lparr>outcome = Returned 6, stderr = [], requested = Some 5,
           final = Some (6, 3, \<lparr>cells = (\<lambda>k. if 0 \<le> k \<and> k < 5 then 0 else beyond dirty k)(4 := 1),
                                len = 5,
                                accesses = [Load 5, Load 4, Load 3, Store 4 1, Load 2]\<rparr>)\<rparr>"
  by (simp add: run_simps limit_of_3 env_simps)

lemma run_no_memory_2:
  "sieve_of_eratosthenes no_memory 2 =
     Some \<lparr>outcome = Exit 1, stderr = [Limit_is 1, Memory_allocation_failed],
           requested = Some 2, final = None\<rparr>"
  by (simp add: run_simps limit_of_2 env_simps)

subsection \<open>The first results, in every environment\<close>

text \<open>
  The second and the sixth result are 3 and 13 whatever lies around the buffer; the third
  is 5 or 6.
\<close>

lemma nth_prime_within_limit:
  assumes "sieve_of_eratosthenes e n = Some r" "outcome r = Returned v" "2 \<le> n"
    and "prime_int q" "1 + int (length (primes_below q)) = n" "q \<le> limit_of n"
  shows "v = q"
proof -
  obtain count b where "final r = Some (v, count, b)"
    using sieve_returned [OF assms(1-3)] by blast
  from sieve_finds [OF assms(1) this] assms(4-6) show ?thesis by blast
qed

lemma second_prime:
  assumes "sieve_of_eratosthenes e 2 = Some r" "outcome r = Returned v"
  shows "v = 3"
proof -
  obtain count b where f: "final r = Some (v, count, b)"
    using sieve_returned [OF assms] by auto
  from sieve_scanned [OF assms(1) f] obtain b0
    where "scan 2 (limit_of 2) 2 1 b0 = Some (Inr (v, count, b))" by blast
  then have "2 < v"
    using scan_moves_on [of 2 "limit_of 2" 2 1 b0 v count b] by (simp add: limit_of_2)
  moreover have "v \<le> 3" using sieve_bounds [OF assms(1) f] by (simp add: limit_of_2)
  ultimately show ?thesis by simp
qed

lemma third_prime:
  assumes "sieve_of_eratosthenes e 3 = Some r" "outcome r = Returned v"
  shows "v = (if beyond e 5 = 0 then 5 else 6)"
  using assms
  by (auto simp: run_simps limit_of_3 split: if_splits)

lemma sixth_prime:
  assumes "sieve_of_eratosthenes e 6 = Some r" "outcome r = Returned v"
  shows "v = 13"
proof -
  have "prime_int 13" by (simp add: prime_int_def) code_simp
  moreover have "primes_below 13 = [2, 3, 5, 7, 11]" by code_simp
  ultimately show ?thesis
    using nth_prime_within_limit [OF assms, of 13] limit_of_6_ge by simp
qed

section \<open>Degenerate input\<close>

text \<open>
  C4: for every \<open>n \<le> 1\<close> (so also for 0 and -5) the function returns 2 at once: no error is
  signalled, nothing is written to \<^verbatim>\<open>stderr\<close>, \<^verbatim>\<open>calloc\<close> is not called and no scan runs,
  whatever the environment.
\<close>

theorem degenerate_input_returns_2:
  "n \<le> 1 \<Longrightarrow>
   sieve_of_eratosthenes e n =
     Some \<lparr>outcome = Returned 2, stderr = [], requested = None, final = None\<rparr>"
  by (simp add: sieve_of_eratosthenes_def)

theorem degenerate_input_returns_2_witness:
  "(0::int) \<le> 1 \<and> (- 5::int) \<le> 1 \<and>
   sieve_of_eratosthenes no_memory 0 =
     Some \<lparr>outcome = Returned 2, stderr = [], requested = None, final = None\<rparr> \<and>
   sieve_of_eratosthenes no_memory (- 5) =
     Some \<lparr>outcome = Returned 2, stderr = [], requested = None, final = None\<rparr>"
  using degenerate_input_returns_2 [of 0 no_memory] degenerate_input_returns_2 [of "- 5" no_memory]
  by simp

section \<open>Termination\<close>




section \<open>The returned value and the scanned range\<close>

text \<open>
  C10: for every \<open>n \<ge> 2\<close>, a value returned by the function is at least 2 and at most
  \<open>limit + 2\<close>, whether the scan stopped at its \<^verbatim>\<open>break\<close> or ran through its range.
\<close>

theorem result_at_most_limit_plus_2:
  assumes "2 \<le> n" "sieve_of_eratosthenes e n = Some r" "outcome r = Returned v"
  shows "2 \<le> v \<and> v \<le> limit_of n + 2"
proof -
  obtain count b where f: "final r = Some (v, count, b)"
    using sieve_returned [OF assms(2,3,1)] by blast
  from sieve_scanned [OF assms(2) f] obtain b0
    where "scan n (limit_of n) 2 1 b0 = Some (Inr (v, count, b))" by blast
  then show ?thesis
    using scan_bounds [of n "limit_of n" 2 1 b0 v count b] limit_of_ge_1 [OF assms(1)] by simp
qed

theorem result_at_most_limit_plus_2_witness:
  "(2::int) \<le> 2 \<and> map_option outcome (sieve_of_eratosthenes zeroed 2) = Some (Returned 3) \<and>
   (2::int) \<le> 3 \<and> 3 \<le> limit_of 2 + 2"
  using result_at_most_limit_plus_2 [OF _ run_zeroed_2, of 3] by (simp add: run_zeroed_2)

text \<open>
  C2, as the function behaves: the scan runs through its range (it ends with
  \<open>i > limit + 1\<close>) exactly when \<open>count\<close> never passed \<open>n\<close>, that is, when the \<^verbatim>\<open>break\<close>
  never fired. Nothing is reported then: the buffer is freed and the scan variable, which is
  \<open>limit + 2\<close>, is returned like any other result.
\<close>

theorem exhausted_scan_returns_silently:
  assumes "sieve_of_eratosthenes e n = Some r" "final r = Some (i, count, b)"
  shows "(count \<le> n \<longleftrightarrow> limit_of n + 1 < i) \<and>
         (count \<le> n \<longrightarrow> outcome r = Returned (limit_of n + 2) \<and> stderr r = [])"
proof -
  from sieve_scanned [OF assms(1,2)] obtain b0
    where n2: "2 \<le> n" and s: "scan n (limit_of n) 2 1 b0 = Some (Inr (i, count, b))"
      and r: "outcome r = Returned i" "stderr r = []"
    by (metis run.select_convs(1,2))
  have "count \<le> n \<longleftrightarrow> limit_of n + 1 < i"
    using scan_exhausted [OF s] n2 by simp
  moreover have "i \<le> limit_of n + 2"
    using scan_bounds [OF s] limit_of_ge_1 [OF n2] by simp
  ultimately show ?thesis using r by auto
qed

theorem exhausted_scan_returns_silently_witness:
  "Option.bind (sieve_of_eratosthenes zeroed 2) scan_end = Some (3, 2) \<and>
   (2::int) \<le> 2 \<and> limit_of 2 + 1 < 3 \<and>
   map_option outcome (sieve_of_eratosthenes zeroed 2) = Some (Returned (limit_of 2 + 2)) \<and>
   map_option stderr (sieve_of_eratosthenes zeroed 2) = Some []"
  using exhausted_scan_returns_silently [OF run_zeroed_2, of 3 2]
  by (simp add: run_zeroed_2 scan_end_def)

text \<open>
  C2 as it is stated (an exhausted scan is reported as an error and no out-of-range index
  is returned) fails: for \<open>n = 2\<close> the range is the single index 2, the scan runs
  past it with one prime found and the function returns 3; for \<open>n = 3\<close> with a non-zero
  byte after the buffer the range 2..5 is exhausted and the function returns 6. Neither run
  reports an error.
\<close>

theorem exhausted_scan_is_not_reported:
  "limit_of 2 = 1 \<and>
   Option.bind (sieve_of_eratosthenes zeroed 2) scan_end = Some (3, 2) \<and>
   map_option outcome (sieve_of_eratosthenes zeroed 2) = Some (Returned 3) \<and>
   limit_of 3 = 4 \<and>
   Option.bind (sieve_of_eratosthenes dirty 3) scan_end = Some (6, 3) \<and>
   map_option outcome (sieve_of_eratosthenes dirty 3) = Some (Returned 6)"
  by (simp add: run_zeroed_2 run_dirty_3 scan_end_def limit_of_2 limit_of_3)

section \<open>Accesses to the buffer\<close>

text \<open>
  C3 (every access to the buffer uses an index from 0 to \<open>limit\<close>) fails on the code: the buffer has \<open>limit + 1\<close> bytes (indices \<open>0..limit\<close>), and the
  scan reads index \<open>limit + 1\<close> when it gets there. For \<open>n = 2\<close> the buffer has 2 bytes and
  index 2 is read; for \<open>n = 3\<close> it has 5 bytes and index 5 is read.
\<close>

theorem scan_reads_past_the_buffer:
  "map_option requested (sieve_of_eratosthenes zeroed 2) = Some (Some 2) \<and>
   map_option stray_accesses (sieve_of_eratosthenes zeroed 2) = Some [2] \<and>
   map_option requested (sieve_of_eratosthenes zeroed 3) = Some (Some 5) \<and>
   map_option stray_accesses (sieve_of_eratosthenes zeroed 3) = Some [5]"
  by (simp add: run_zeroed_2 run_zeroed_3 stray_accesses_def out_of_bounds_def in_bounds_def)

text \<open>
  C7: the buffer starts with every entry 0; the record of accesses accounts for its
  contents at every moment; and an entry that is non-zero after some prefix of the accesses
  is non-zero after every longer prefix.
\<close>

theorem marks_are_never_reset:
  assumes "sieve_of_eratosthenes e n = Some r" "final r = Some (i, count, b)"
  shows "\<exists>b0. calloc e (len b) = Some b0 \<and>
           (\<forall>k. in_bounds b0 k \<longrightarrow> cells b0 k = 0) \<and>
           replay (accesses b) (cells b0) = cells b \<and>
           (\<forall>later mid earlier k. accesses b = later @ mid @ earlier \<longrightarrow>
              replay earlier (cells b0) k \<noteq> 0 \<longrightarrow> replay (mid @ earlier) (cells b0) k \<noteq> 0)"
proof -
  from sieve_scanned [OF assms] obtain b0
    where c: "calloc e (limit_of n + 1) = Some b0"
      and s: "scan n (limit_of n) 2 1 b0 = Some (Inr (i, count, b))"
    by blast
  have b0: "len b0 = limit_of n + 1" "accesses b0 = []"
    "\<forall>k. in_bounds b0 k \<longrightarrow> cells b0 k = 0"
    using c by (auto simp: calloc_def in_bounds_def split: if_splits)
  have "recorded (cells b0) b0" using b0 by (simp add: recorded_def)
  then have rec: "recorded (cells b0) b" using scan_recorded [OF s] by simp
  have "len b = limit_of n + 1" using scan_len [OF s] b0 by simp
  moreover have "replay (mid @ earlier) (cells b0) k \<noteq> 0"
    if "accesses b = later @ mid @ earlier" "replay earlier (cells b0) k \<noteq> 0"
    for later mid earlier k
  proof -
    have "stores_one (later @ mid @ earlier)" using rec that(1) by (simp add: recorded_def)
    then have "stores_one mid" by (simp add: stores_one_append)
    then show ?thesis using that(2) by (rule replay_keeps_marks)
  qed
  ultimately show ?thesis using c b0 rec by (auto simp: recorded_def)
qed

theorem marks_are_never_reset_witness:
  "Option.bind (sieve_of_eratosthenes zeroed 3) scan_end = Some (5, 4) \<and>
   (\<exists>b0. calloc zeroed 5 = Some b0 \<and> in_bounds b0 4 \<and> cells b0 4 = 0 \<and>
      replay [Store 4 1, Load 2] (cells b0) 4 \<noteq> 0 \<and>
      replay ([Load 4, Load 3] @ [Store 4 1, Load 2]) (cells b0) 4 \<noteq> 0)"
proof -
  let ?b = "\<lparr>cells = (\<lambda>k. if 0 \<le> k \<and> k < 5 then 0 else beyond zeroed k)(4 := 1), len = 5,
             accesses = [Load 5, Load 4, Load 3, Store 4 1, Load 2]\<rparr>"
  from marks_are_never_reset [OF run_zeroed_3, of 5 4 ?b] obtain b0
    where b0: "calloc zeroed 5 = Some b0" "\<forall>k. in_bounds b0 k \<longrightarrow> cells b0 k = 0"
      and keep: "\<forall>later mid earlier k. accesses ?b = later @ mid @ earlier \<longrightarrow>
              replay earlier (cells b0) k \<noteq> 0 \<longrightarrow> replay (mid @ earlier) (cells b0) k \<noteq> 0"
    by auto
  have inb: "in_bounds b0 4" using b0(1) by (auto simp: calloc_def in_bounds_def split: if_splits)
  have m: "replay [Store 4 1, Load 2] (cells b0) 4 \<noteq> 0" by simp
  have "accesses ?b = [Load 5] @ [Load 4, Load 3] @ [Store 4 1, Load 2]" by simp
  with keep m have "replay ([Load 4, Load 3] @ [Store 4 1, Load 2]) (cells b0) 4 \<noteq> 0"
    by blast
  with b0 inb m show ?thesis by (auto simp: run_zeroed_3 scan_end_def)
qed

section \<open>Allocation failure\<close>

text \<open>
  C8: when \<^verbatim>\<open>calloc\<close> returns \<^verbatim>\<open>NULL\<close> the call ends with \<^verbatim>\<open>exit(1)\<close> after writing the
  limit and a message to \<^verbatim>\<open>stderr\<close>; no scan runs and no value is returned.
\<close>

theorem allocation_failure_exits:
  assumes "2 \<le> n" "in_int (limit_of n + 1)" "calloc e (limit_of n + 1) = None"
  shows "sieve_of_eratosthenes e n =
           Some \<lparr>outcome = Exit 1, stderr = [Limit_is (limit_of n), Memory_allocation_failed],
                 requested = Some (limit_of n + 1), final = None\<rparr>"
proof -
  have "in_int (limit_of n)"
    using assms(2) limit_of_ge_1 [OF assms(1)] by (simp add: in_int_def INT_MIN_def)
  then show ?thesis
    using assms by (simp add: sieve_of_eratosthenes_def size_t_of_limit)
qed

theorem allocation_failure_exits_witness:
  "(2::int) \<le> 2 \<and> in_int (limit_of 2 + 1) \<and> calloc no_memory (limit_of 2 + 1) = None \<and>
   sieve_of_eratosthenes no_memory 2 =
     Some \<lparr>outcome = Exit 1, stderr = [Limit_is (limit_of 2), Memory_allocation_failed],
           requested = Some (limit_of 2 + 1), final = None\<rparr>"
proof -
  have h: "in_int (limit_of 2 + 1)" "calloc no_memory (limit_of 2 + 1) = None"
    by (simp_all add: limit_of_2 in_int_def INT_MAX_def INT_MIN_def calloc_def env_simps)
  show ?thesis using h allocation_failure_exits [OF _ h] by simp
qed

section \<open>The value returned\<close>

text \<open>
  C1 (the function returns the n-th prime for \<open>n\<close> from 1 to 10000, and 2, 3, 5, 13 for
  \<open>n\<close> = 1, 2, 3, 6) fails on the code at \<open>n = 3\<close>: the scan reaches index 5, one past the
  5-byte buffer, and what it reads there decides the result: 5 if that byte is zero, 6 if it
  is not.
\<close>

theorem third_prime_depends_on_a_stray_byte:
  "Option.bind (sieve_of_eratosthenes zeroed 3) returned = Some 5 \<and>
   Option.bind (sieve_of_eratosthenes dirty 3) returned = Some 6 \<and>
   map_option stray_accesses (sieve_of_eratosthenes dirty 3) = Some [5]"
  by (simp add: run_zeroed_3 run_dirty_3 returned_def stray_accesses_def out_of_bounds_def
      in_bounds_def)

text \<open>
  C6 (the result has no divisor other than 1 and itself) fails on the code for the same
  reason: with a non-zero byte after the buffer the call for \<open>n = 3\<close> returns 6, which has
  the divisor 2.
\<close>

theorem result_can_be_composite:
  "Option.bind (sieve_of_eratosthenes dirty 3) returned = Some 6 \<and>
   (2::int) dvd 6 \<and> (2::int) \<noteq> 1 \<and> (2::int) \<noteq> 6"
  by (simp add: run_dirty_3 returned_def)

text \<open>
  C5: for every \<open>n \<ge> 1\<close>, when the calls for \<open>n\<close> and for \<open>n + 1\<close> both return a value, the
  second value is larger, whatever the two environments are.
\<close>

theorem results_increase:
  assumes "1 \<le> n"
    and "sieve_of_eratosthenes e n = Some r" "outcome r = Returned v"
    and "sieve_of_eratosthenes e' (n + 1) = Some r'" "outcome r' = Returned v'"
  shows "v < v'"
proof (cases "n = 1")
  case True
  then have v: "v = 2" using assms(2,3) by (auto simp: sieve_of_eratosthenes_def)
  obtain count b where f: "final r' = Some (v', count, b)"
    using sieve_returned [OF assms(4,5)] True by auto
  from sieve_scanned [OF assms(4) f] obtain b0
    where "scan (n + 1) (limit_of (n + 1)) 2 1 b0 = Some (Inr (v', count, b))" by blast
  then have "2 < v'"
    using scan_moves_on [of "n + 1" "limit_of (n + 1)" 2 1 b0 v' count b]
      limit_of_ge_1 [of "n + 1"] True by simp
  with v show ?thesis by simp
next
  case False
  with assms(1) have n2: "2 \<le> n" by simp
  obtain count b where f: "final r = Some (v, count, b)"
    using sieve_returned [OF assms(2,3) n2] by blast
  obtain count' b' where f': "final r' = Some (v', count', b')"
    using sieve_returned [OF assms(4,5)] n2 by auto
  note found = sieve_finds [OF assms(2) f] and found' = sieve_finds [OF assms(4) f']
  have v_le: "v \<le> limit_of n + 2"
    using sieve_bounds [OF assms(2) f] by simp
  show ?thesis
  proof (rule ccontr)
    assume "\<not> v < v'"
    then have le: "v' \<le> v" by simp
    with v_le limit_growth [OF n2] have "v' \<le> limit_of (n + 1)" by simp
    with found' have pv': "prime_int v'" and cv': "1 + int (length (primes_below v')) = n + 1"
      by simp_all
    from cv' n2 have "length (primes_below v') = Suc (nat (n - 1))" by simp
    from previous_prime [OF this] obtain q
      where q: "prime_int q" "q < v'" "length (primes_below q) = nat (n - 1)" by blast
    then have cq: "1 + int (length (primes_below q)) = n" using n2 by simp
    show False
    proof (cases "q \<le> limit_of n")
      case True
      with found q(1) cq have "v = q" by blast
      with q(2) le show False by simp
    next
      case False
      with q(2) le v_le have "v' = q + 1" by simp
      with q(1) pv' have "q = 2" using twin_2_3 by simp
      with cq n2 show False by (simp add: primes_below_def)
    qed
  qed
qed

theorem results_increase_witness:
  "(1::int) \<le> 2 \<and>
   Option.bind (sieve_of_eratosthenes zeroed 2) returned = Some 3 \<and>
   Option.bind (sieve_of_eratosthenes dirty (2 + 1)) returned = Some 6 \<and> (3::int) < 6"
proof -
  have r: "sieve_of_eratosthenes dirty (2 + 1) = sieve_of_eratosthenes dirty 3" by simp
  show ?thesis
    using results_increase [OF _ run_zeroed_2 _ run_dirty_3 [folded r], of 3 6]
    by (simp add: run_zeroed_2 run_dirty_3 returned_def)
qed

end
